theory Spec2Isabelle
  imports Main "HOL-Library.AList"
begin

section \<open>Python values\<close>

text \<open>
  A Python \<open>str\<close> is a sequence of Unicode code points; it is modelled as a list of
  natural numbers, one per code point, so that \<open>split\<close>, \<open>strip\<close> and comparison see
  what Python sees. \<open>str\<close> turns a literal of the source into that representation; the
  newline \<open>'\n'\<close> is code point 10.
\<close>

type_synonym pystr = "nat list"

definition str :: "string \<Rightarrow> pystr" where
  "str s = map of_char s"

definition NL :: nat where
  "NL = 10"

text \<open>
  The values that occur in option dictionaries. A dictionary is an association list in
  insertion order with every key at most once, as a Python \<open>dict\<close> is; \<open>map_of\<close> looks a
  key up. Nested values are immutable in everything modelled here (no function of the
  source writes into a nested list or dictionary), so they are values, not references.
\<close>

datatype pyval =
    PNone
  | PBool bool
  | PInt int
  | PStr pystr
  | PList "pyval list"
  | PDict "(pystr \<times> pyval) list"

type_synonym pydict = "(pystr \<times> pyval) list"

text \<open>
  Exceptions are values. \<open>TypeError\<close> and \<open>AttributeError\<close> are Python's own;
  \<open>ConversionError\<close> stands for whatever a conversion raises; \<open>NotModelled\<close> marks an
  option value of a shape this model does not follow (a list with an element that is not a
  string where the source expects names).
\<close>

datatype pyerror = TypeError | AttributeError | ConversionError | NotModelled

text \<open>
  Truth value testing (\<open>if x:\<close>, \<open>x or y\<close>) and hashability (lists and dictionaries
  cannot be dictionary keys: \<open>dict.get\<close> raises \<open>TypeError\<close> on them).
\<close>

fun truthy :: "pyval \<Rightarrow> bool" where
  "truthy PNone = False"
| "truthy (PBool b) = b"
| "truthy (PInt i) = (i \<noteq> 0)"
| "truthy (PStr s) = (s \<noteq> [])"
| "truthy (PList xs) = (xs \<noteq> [])"
| "truthy (PDict d) = (d \<noteq> [])"

fun hashable :: "pyval \<Rightarrow> bool" where
  "hashable (PList xs) = False"
| "hashable (PDict d) = False"
| "hashable v = True"

text \<open>
  \<open>d.get(k, default)\<close>, \<open>d.pop(k, default)\<close> (the value and the dictionary that is left)
  and \<open>d.update(other)\<close>: a key already present keeps its place, a new key goes to the end.
\<close>

definition dict_get :: "pydict \<Rightarrow> pystr \<Rightarrow> pyval \<Rightarrow> pyval" where
  "dict_get d k dflt = (case map_of d k of Some v \<Rightarrow> v | None \<Rightarrow> dflt)"

definition dict_pop :: "pystr \<Rightarrow> pyval \<Rightarrow> pydict \<Rightarrow> pyval \<times> pydict" where
  "dict_pop k dflt d =
     (case map_of d k of Some v \<Rightarrow> (v, AList.delete k d) | None \<Rightarrow> (dflt, d))"

definition dict_update :: "pydict \<Rightarrow> pydict \<Rightarrow> pydict" where
  "dict_update d other = fold (\<lambda>(k, v). AList.update k v) other d"

section \<open>Html2MarkdownService: the postprocessing step\<close>

text \<open>
  \<open>str.strip()\<close> without arguments removes leading and trailing characters for which
  \<open>str.isspace\<close> holds: the code points below.
\<close>

definition is_space :: "nat \<Rightarrow> bool" where
  "is_space c \<longleftrightarrow>
     (9 \<le> c \<and> c \<le> 13) \<or> (28 \<le> c \<and> c \<le> 32) \<or> c = 133 \<or> c = 160 \<or> c = 5760 \<or>
     (8192 \<le> c \<and> c \<le> 8202) \<or> c = 8232 \<or> c = 8233 \<or> c = 8239 \<or> c = 8287 \<or> c = 12288"

definition strip :: "pystr \<Rightarrow> pystr" where
  "strip s = rev (dropWhile is_space (rev (dropWhile is_space s)))"

text \<open>
  \<open>markdown.split('\n')\<close>: always at least one piece, and no piece has a newline.
\<close>

fun split_nl :: "pystr \<Rightarrow> pystr list" where
  "split_nl [] = [[]]"
| "split_nl (c # cs) =
     (if c = NL then [] # split_nl cs
      else (case split_nl cs of [] \<Rightarrow> [[c]] | l # ls \<Rightarrow> (c # l) # ls))"

text \<open>
  \<open>'\n'.join(result)\<close>.
\<close>

fun join_nl :: "pystr list \<Rightarrow> pystr" where
  "join_nl [] = []"
| "join_nl [l] = l"
| "join_nl (l # ls) = l @ NL # join_nl ls"

text \<open>
  The \<open>for line in lines\<close> loop of \<open>_postprocess\<close>, with its two variables \<open>result\<close>
  and \<open>prev_empty\<close> threaded through. On \<open>continue\<close> neither changes. The function reads
  nothing but its argument: neither \<open>self\<close> nor a global.
\<close>

fun postprocess_loop :: "pystr list \<Rightarrow> pystr list \<Rightarrow> bool \<Rightarrow> pystr list" where
  "postprocess_loop [] result prev_empty = result"
| "postprocess_loop (line # lines) result prev_empty =
     (let is_empty = (strip line = [])
      in if is_empty \<and> prev_empty then postprocess_loop lines result prev_empty
         else postprocess_loop lines (result @ [line]) is_empty)"

definition postprocess :: "pystr \<Rightarrow> pystr" where
  "postprocess markdown = join_nl (postprocess_loop (split_nl markdown) [] False)"

subsection \<open>Vocabulary of the statements about lines\<close>

text \<open>
  A blank line is one that is empty after stripping whitespace.
\<close>

definition blank :: "pystr \<Rightarrow> bool" where
  "blank l \<longleftrightarrow> strip l = []"

text \<open>
  Two neighbouring lines of a line list are both blank.
\<close>

fun adjacent_blank :: "pystr list \<Rightarrow> bool" where
  "adjacent_blank (a # b # ls) = ((blank a \<and> blank b) \<or> adjacent_blank (b # ls))"
| "adjacent_blank ls = False"

text \<open>
  The reading of the specification's words: of every run of consecutive blank lines only
  the first stays, every other line is kept. Line \<open>i\<close> goes exactly when it is blank and
  its predecessor in the input is blank too.
\<close>

definition collapse_blank_runs :: "pystr list \<Rightarrow> pystr list" where
  "collapse_blank_runs ls =
     map (\<lambda>i. ls ! i)
       (filter (\<lambda>i. \<not> (blank (ls ! i) \<and> 0 < i \<and> blank (ls ! (i - 1)))) [0..<length ls])"

text \<open>
  The loop without its accumulator: what it appends, given the flag it starts with.
\<close>

fun kept_lines :: "pystr list \<Rightarrow> bool \<Rightarrow> pystr list" where
  "kept_lines [] prev_empty = []"
| "kept_lines (line # lines) prev_empty =
     (if blank line \<and> prev_empty then kept_lines lines prev_empty
      else line # kept_lines lines (blank line))"


section \<open>Rules and the rule registry\<close>

text \<open>
  A rule object is known here by its class alone; \<open>UserRule\<close> stands for the rule objects a
  caller supplies. The classes themselves (\<open>converters/rules.py\<close>) are not among the
  sources, and no statement below depends on what a rule does.
\<close>

datatype rule =
    ParagraphRule | HeadingRule | BlockquoteRule | PreRule | UnorderedListRule
  | OrderedListRule | TaskListRule | ListItemRule | HorizontalRuleRule | TableRule
  | DefinitionListRule | StrongRule | EmphasisRule | CodeRule | LinkRule | ImageRule
  | StrikethroughRule | SubscriptRule | SuperscriptRule | TextRule
  | UserRule nat

text \<open>
  Modelled from the spec: \<open>RuleRegistry\<close> (\<open>core/registry.py\<close>) is not among the sources.
  The specification describes it as an ordered sequence of (name, rule) pairs whose order
  is the match priority: \<open>add(name, rule)\<close> appends; \<open>insert(name, rule, index)\<close> inserts at
  a position, shifting later entries; \<open>get_rules()\<close> yields the ordered sequence.
\<close>

type_synonym registry = "(pystr \<times> rule) list"

definition registry_add :: "pystr \<Rightarrow> rule \<Rightarrow> registry \<Rightarrow> registry" where
  "registry_add name r rs = rs @ [(name, r)]"

definition registry_insert :: "pystr \<Rightarrow> rule \<Rightarrow> nat \<Rightarrow> registry \<Rightarrow> registry" where
  "registry_insert name r i rs = take i rs @ (name, r) # drop i rs"

definition get_rules :: "registry \<Rightarrow> (pystr \<times> rule) list" where
  "get_rules rs = rs"

section \<open>Objects and the store\<close>

text \<open>
  The source mutates dictionaries and registries in place and hands references around
  (\<open>options.pop\<close>, \<open>dialect_options.update\<close>, \<open>self.service.options.copy()\<close>), so these
  objects live in a store: a map from addresses to dictionaries, a map from addresses to
  registries, and the next free address. Creating an object takes the next free address.
\<close>

record heap =
  dicts :: "nat \<rightharpoonup> pydict"
  registries :: "nat \<rightharpoonup> registry"
  next_addr :: nat

definition dict_at :: "heap \<Rightarrow> nat \<Rightarrow> pydict" where
  "dict_at h a = (case dicts h a of Some d \<Rightarrow> d | None \<Rightarrow> [])"

definition registry_at :: "heap \<Rightarrow> nat \<Rightarrow> registry" where
  "registry_at h a = (case registries h a of Some rs \<Rightarrow> rs | None \<Rightarrow> [])"

definition new_dict :: "pydict \<Rightarrow> heap \<Rightarrow> nat \<times> heap" where
  "new_dict d h =
     (next_addr h, h\<lparr>dicts := (dicts h)(next_addr h \<mapsto> d), next_addr := Suc (next_addr h)\<rparr>)"

definition new_registry :: "heap \<Rightarrow> nat \<times> heap" where
  "new_registry h =
     (next_addr h,
      h\<lparr>registries := (registries h)(next_addr h \<mapsto> []), next_addr := Suc (next_addr h)\<rparr>)"

definition set_dict :: "nat \<Rightarrow> pydict \<Rightarrow> heap \<Rightarrow> heap" where
  "set_dict a d h = h\<lparr>dicts := (dicts h)(a \<mapsto> d)\<rparr>"

definition empty_heap :: heap where
  "empty_heap = \<lparr>dicts = Map.empty, registries = Map.empty, next_addr = 0\<rparr>"

section \<open>Html2MarkdownService\<close>

text \<open>
  A service holds two references: \<open>self.options\<close> and \<open>self.rules\<close>. Neither attribute is
  rebound after \<open>__init__\<close>.
\<close>

record service =
  options :: nat
  rules :: nat

text \<open>
  \<open>Html2MarkdownService.register_rule\<close>: \<open>self.rules.add(name, rule)\<close>.
\<close>

definition service_register_rule :: "heap \<Rightarrow> service \<Rightarrow> pystr \<Rightarrow> rule \<Rightarrow> heap" where
  "service_register_rule h self name r =
     h\<lparr>registries := (registries h)(rules self \<mapsto> registry_add name r (registry_at h (rules self)))\<rparr>"

text \<open>
  \<open>_register_default_rules\<close>: twenty calls of \<open>self.register_rule\<close>, in this order.
\<close>

definition default_rules :: "(pystr \<times> rule) list" where
  "default_rules =
     [(str ''paragraph'', ParagraphRule),
      (str ''heading'', HeadingRule),
      (str ''blockquote'', BlockquoteRule),
      (str ''code-block'', PreRule),
      (str ''unordered-list'', UnorderedListRule),
      (str ''ordered-list'', OrderedListRule),
      (str ''task-list'', TaskListRule),
      (str ''list-item'', ListItemRule),
      (str ''horizontal-rule'', HorizontalRuleRule),
      (str ''table'', TableRule),
      (str ''definition-list'', DefinitionListRule),
      (str ''strong'', StrongRule),
      (str ''emphasis'', EmphasisRule),
      (str ''code'', CodeRule),
      (str ''link'', LinkRule),
      (str ''image'', ImageRule),
      (str ''strikethrough'', StrikethroughRule),
      (str ''subscript'', SubscriptRule),
      (str ''superscript'', SuperscriptRule),
      (str ''text'', TextRule)]"

definition register_default_rules :: "heap \<Rightarrow> service \<Rightarrow> heap" where
  "register_default_rules h self =
     fold (\<lambda>(name, r) h'. service_register_rule h' self name r) default_rules h"

text \<open>
  \<open>options or {}\<close>: the given dictionary when there is one and it is not empty, else a
  new empty dictionary.
\<close>

definition or_new_dict :: "nat option \<Rightarrow> heap \<Rightarrow> nat \<times> heap" where
  "or_new_dict opts h =
     (case opts of
        None \<Rightarrow> new_dict [] h
      | Some a \<Rightarrow> if dict_at h a \<noteq> [] then (a, h) else new_dict [] h)"

text \<open>
  \<open>Html2MarkdownService.__init__\<close>: \<open>self.options = options or {}\<close>,
  \<open>self.rules = RuleRegistry()\<close>, then the default rules.
\<close>

definition Html2MarkdownService_init :: "heap \<Rightarrow> nat option \<Rightarrow> service \<times> heap" where
  "Html2MarkdownService_init h opts =
     (let (oa, h1) = or_new_dict opts h;
          (ra, h2) = new_registry h1;
          self = \<lparr>options = oa, rules = ra\<rparr>
      in (self, register_default_rules h2 self))"

section \<open>Html2MarkdownConverter\<close>

text \<open>
  The dialect table of \<open>_get_dialect_options\<close>, entry by entry.
\<close>

definition commonmark_options :: pydict where
  "commonmark_options =
     [(str ''headingStyle'', PStr (str ''atx'')),
      (str ''bulletListMarker'', PStr (str ''*'')),
      (str ''codeBlockStyle'', PStr (str ''fenced'')),
      (str ''emDelimiter'', PStr (str ''*'')),
      (str ''strongDelimiter'', PStr (str ''**'')),
      (str ''linkStyle'', PStr (str ''inlined'')),
      (str ''useHtmlTags'', PBool True),
      (str ''gfm'', PBool False)]"

definition github_options :: pydict where
  "github_options =
     [(str ''headingStyle'', PStr (str ''atx'')),
      (str ''bulletListMarker'', PStr (str ''-'')),
      (str ''codeBlockStyle'', PStr (str ''fenced'')),
      (str ''emDelimiter'', PStr (str ''*'')),
      (str ''strongDelimiter'', PStr (str ''**'')),
      (str ''linkStyle'', PStr (str ''inlined'')),
      (str ''useHtmlTags'', PBool True),
      (str ''gfm'', PBool True),
      (str ''strikethrough'', PBool True),
      (str ''tables'', PBool True),
      (str ''taskLists'', PBool True)]"

definition traditional_options :: pydict where
  "traditional_options =
     [(str ''headingStyle'', PStr (str ''setext'')),
      (str ''bulletListMarker'', PStr (str ''*'')),
      (str ''codeBlockStyle'', PStr (str ''indented'')),
      (str ''emDelimiter'', PStr (str ''_'')),
      (str ''strongDelimiter'', PStr (str ''__'')),
      (str ''linkStyle'', PStr (str ''referenced'')),
      (str ''useHtmlTags'', PBool True),
      (str ''gfm'', PBool False),
      (str ''smartPunctuation'', PBool True)]"

definition dialect_options :: "(pystr \<times> pydict) list" where
  "dialect_options =
     [(str ''commonmark'', commonmark_options),
      (str ''github'', github_options),
      (str ''traditional'', traditional_options),
      (str ''custom'', [])]"

text \<open>
  \<open>_get_dialect_options\<close>: \<open>dialect_options.get(dialect, {})\<close>. The table is built anew by
  every call, so the result is a new object; the caller below gives it its address.
\<close>

definition get_dialect_options :: "pyval \<Rightarrow> pyerror + pydict" where
  "get_dialect_options dialect =
     (if \<not> hashable dialect then Inl TypeError
      else case dialect of
             PStr d \<Rightarrow> (case map_of dialect_options d of Some p \<Rightarrow> Inr p | None \<Rightarrow> Inr [])
           | _ \<Rightarrow> Inr [])"

record converter =
  service :: service

text \<open>
  \<open>Html2MarkdownConverter.__init__\<close>. \<open>options.pop("dialect", "github")\<close> writes into the
  caller's dictionary; the preset is a new dictionary, updated with what is left of the
  caller's options when that is not empty, and handed to the service.
\<close>

definition Html2MarkdownConverter_init ::
    "heap \<Rightarrow> nat option \<Rightarrow> (pyerror + converter) \<times> heap" where
  "Html2MarkdownConverter_init h opts =
     (let (oa, h1) = or_new_dict opts h;
          (dialect, popped) = dict_pop (str ''dialect'') (PStr (str ''github'')) (dict_at h1 oa);
          h2 = set_dict oa popped h1
      in case get_dialect_options dialect of
           Inl e \<Rightarrow> (Inl e, h2)
         | Inr preset \<Rightarrow>
             (let (da, h3) = new_dict preset h2;
                  h4 = (if dict_at h3 oa \<noteq> []
                        then set_dict da (dict_update (dict_at h3 da) (dict_at h3 oa)) h3
                        else h3);
                  (s, h5) = Html2MarkdownService_init h4 (Some da)
              in (Inr \<lparr>service = s\<rparr>, h5)))"

text \<open>
  \<open>turndown\<close> belongs to \<open>MagicLensService\<close> (\<open>core/service.py\<close>), which is not among the
  sources: it is a parameter. It gets the store, the service it is called on and the
  markup, and returns the Markdown or an error, and the store it leaves.
\<close>

type_synonym turndown = "heap \<Rightarrow> service \<Rightarrow> pystr \<Rightarrow> (pyerror + pystr) \<times> heap"

text \<open>
  The f-string \<open>f"<{fragment_root}>..."\<close> formats a string as itself; how Python formats
  any other value is the parameter \<open>fmt\<close>.
\<close>

definition format_value :: "(pyval \<Rightarrow> pystr) \<Rightarrow> pyval \<Rightarrow> pystr" where
  "format_value fmt v = (case v of PStr s \<Rightarrow> s | _ \<Rightarrow> fmt v)"

text \<open>
  \<open>convert_html\<close>. \<open>kwargs\<close> is the dictionary Python builds for the call. With options
  left after the two \<open>pop\<close>s, the default service's options are copied into a new
  dictionary, updated, and a temporary service is built on it.
\<close>

definition convert_html ::
    "turndown \<Rightarrow> (pyval \<Rightarrow> pystr) \<Rightarrow> heap \<Rightarrow> converter \<Rightarrow> pystr \<Rightarrow> pydict
       \<Rightarrow> (pyerror + pystr) \<times> heap" where
  "convert_html td fmt h self html kwargs =
     (let (fragment, kwargs1) = dict_pop (str ''fragment'') (PBool False) kwargs;
          (fragment_root, kwargs2) = dict_pop (str ''fragment_root'') (PStr (str ''div'')) kwargs1;
          html1 = (if truthy fragment
                   then str ''<'' @ format_value fmt fragment_root @ str ''>'' @ html
                        @ str ''</'' @ format_value fmt fragment_root @ str ''>''
                   else html)
      in if kwargs2 \<noteq> []
         then (let (oa, h1) = new_dict (dict_at h (options (service self))) h;
                   h2 = set_dict oa (dict_update (dict_at h1 oa) kwargs2) h1;
                   (temp_service, h3) = Html2MarkdownService_init h2 (Some oa)
               in td h3 temp_service html1)
         else td h (service self) html1)"

text \<open>
  \<open>next((i for i, (rule_name, _) in enumerate(rules) if rule_name == "text"), -1)\<close>,
  counting from \<open>i\<close>.
\<close>

fun text_rule_index :: "int \<Rightarrow> (pystr \<times> rule) list \<Rightarrow> int" where
  "text_rule_index i [] = - 1"
| "text_rule_index i ((rule_name, r) # rest) =
     (if rule_name = str ''text'' then i else text_rule_index (i + 1) rest)"

text \<open>
  \<open>Html2MarkdownConverter.register_rule\<close>. With a priority given, the first \<open>if\<close> is
  skipped and the call ends in \<open>self.service.register_rule(name, rule)\<close>: the priority is
  read nowhere else.
\<close>

definition register_rule ::
    "heap \<Rightarrow> converter \<Rightarrow> pystr \<Rightarrow> rule \<Rightarrow> int option \<Rightarrow> heap" where
  "register_rule h self name r priority =
     (case priority of
        None \<Rightarrow>
          (let rs = get_rules (registry_at h (rules (service self)));
               idx = text_rule_index 0 rs
           in if idx \<ge> 0
              then h\<lparr>registries := (registries h)(rules (service self) \<mapsto>
                       registry_insert name r (nat idx) (registry_at h (rules (service self))))\<rparr>
              else service_register_rule h (service self) name r)
      | Some p \<Rightarrow> service_register_rule h (service self) name r)"

section \<open>The parsed tree and the preprocessing step\<close>

text \<open>
  The tree BeautifulSoup hands over: tags with a name, attributes and contents, strings and
  comments. Every node carries a number that stands for the identity of the Python object:
  a list returned by \<open>find_all\<close> holds objects, and the loops of \<open>_preprocess\<close> read and
  change each of them in whatever state the tree is in by then. In a tree that a parser
  built, all numbers differ. An attribute value is a string or, for \<open>class\<close>, a list of
  strings.
\<close>

datatype attr_value = Single pystr | Multi "pystr list"

type_synonym attrs = "(pystr \<times> attr_value) list"

datatype node =
    Tag nat pystr attrs "node list"
  | NavigableString nat pystr
  | Comment nat pystr

fun node_id :: "node \<Rightarrow> nat" where
  "node_id (Tag i name as contents) = i"
| "node_id (NavigableString i s) = i"
| "node_id (Comment i s) = i"

fun is_tag :: "node \<Rightarrow> bool" where
  "is_tag (Tag i name as contents) = True"
| "is_tag n = False"

fun is_comment :: "node \<Rightarrow> bool" where
  "is_comment (Comment i s) = True"
| "is_comment n = False"

text \<open>
  What \<open>find_all\<close> searches: the nodes below the one it is called on, in document order (a
  node before its contents, contents from left to right). The soup itself is not among
  them.
\<close>

fun descendants :: "node \<Rightarrow> node list" where
  "descendants (Tag i name as contents) = concat (map (\<lambda>c. c # descendants c) contents)"
| "descendants (NavigableString i s) = []"
| "descendants (Comment i s) = []"

text \<open>
  The present state of the object with a given identity, if it is still in the tree.
\<close>

definition lookup :: "nat \<Rightarrow> node \<Rightarrow> node option" where
  "lookup i soup = find (\<lambda>n. node_id n = i) (descendants soup)"

text \<open>
  \<open>tag.decompose()\<close> and \<open>comment.extract()\<close> take the node, with all below it, out of the
  tree. On a node that is no longer in the tree nothing in the tree changes.
\<close>

fun decompose :: "nat \<Rightarrow> node \<Rightarrow> node" where
  "decompose i (Tag j name as contents) =
     Tag j name as (map (decompose i) (filter (\<lambda>c. node_id c \<noteq> i) contents))"
| "decompose i (NavigableString j s) = NavigableString j s"
| "decompose i (Comment j s) = Comment j s"

definition extract_node :: "nat \<Rightarrow> node \<Rightarrow> node" where
  "extract_node i soup = decompose i soup"

text \<open>
  Assignment to \<open>tag.attrs\<close> of the tag with a given identity.
\<close>

fun set_attrs :: "nat \<Rightarrow> attrs \<Rightarrow> node \<Rightarrow> node" where
  "set_attrs i new (Tag j name as contents) =
     Tag j name (if j = i then new else as) (map (set_attrs i new) contents)"
| "set_attrs i new (NavigableString j s) = NavigableString j s"
| "set_attrs i new (Comment j s) = Comment j s"

text \<open>
  The four searches of \<open>_preprocess\<close>, each giving the list of objects it found:
  \<open>find_all()\<close> and \<open>find_all(True)\<close> (every tag), \<open>find_all(tag_name)\<close>,
  \<open>find_all(class_=True)\<close> (every tag that has a \<open>class\<close> attribute) and
  \<open>find_all(string=lambda text: isinstance(text, Comment))\<close>.
\<close>

definition find_all_tags :: "node \<Rightarrow> nat list" where
  "find_all_tags soup = map node_id (filter is_tag (descendants soup))"

fun has_name :: "pystr \<Rightarrow> node \<Rightarrow> bool" where
  "has_name tag_name (Tag i name as contents) = (name = tag_name)"
| "has_name tag_name n = False"

definition find_all_name :: "pystr \<Rightarrow> node \<Rightarrow> nat list" where
  "find_all_name tag_name soup = map node_id (filter (has_name tag_name) (descendants soup))"

fun has_class :: "node \<Rightarrow> bool" where
  "has_class (Tag i name as contents) = (map_of as (str ''class'') \<noteq> None)"
| "has_class n = False"

definition find_all_class :: "node \<Rightarrow> nat list" where
  "find_all_class soup = map node_id (filter has_class (descendants soup))"

definition find_all_comments :: "node \<Rightarrow> nat list" where
  "find_all_comments soup = map node_id (filter is_comment (descendants soup))"

text \<open>
  Iterating over an option value that should be a collection of names: a list of strings
  gives its elements, a string its characters, a dictionary its keys; \<open>None\<close>, a Boolean
  or a number raises \<open>TypeError\<close>.
\<close>

fun as_str :: "pyval \<Rightarrow> pystr option" where
  "as_str (PStr s) = Some s"
| "as_str v = None"

fun iter_strs :: "pyval \<Rightarrow> pyerror + pystr list" where
  "iter_strs (PList xs) =
     (if list_all (\<lambda>x. as_str x \<noteq> None) xs then Inr (map (\<lambda>x. the (as_str x)) xs)
      else Inl NotModelled)"
| "iter_strs (PStr s) = Inr (map (\<lambda>c. [c]) s)"
| "iter_strs (PDict d) = Inr (map fst d)"
| "iter_strs v = Inl TypeError"

text \<open>
  Removing tags: \<open>for tag_name in remove_tags: for tag in soup.find_all(tag_name):
  tag.decompose()\<close>. Each inner list is computed when its loop starts.
\<close>

definition remove_tags_step :: "pyval \<Rightarrow> node \<Rightarrow> pyerror + node" where
  "remove_tags_step v soup =
     (case iter_strs v of
        Inl e \<Rightarrow> Inl e
      | Inr remove_tags \<Rightarrow>
          Inr (fold (\<lambda>tag_name s. fold decompose (find_all_name tag_name s) s) remove_tags soup))"

text \<open>
  Removing attributes, one tag: \<open>for attr in remove_attrs: if attr in tag.attrs:
  del tag.attrs[attr]\<close>. The whole step runs only \<open>if remove_attrs\<close>, and iterates over
  \<open>remove_attrs\<close> only when there is a tag.
\<close>

definition remove_attrs_tag :: "pystr list \<Rightarrow> nat \<Rightarrow> node \<Rightarrow> node" where
  "remove_attrs_tag remove_attrs i soup =
     (case lookup i soup of
        Some (Tag j name as contents) \<Rightarrow> set_attrs i (fold AList.delete remove_attrs as) soup
      | _ \<Rightarrow> soup)"

definition remove_attrs_step :: "pyval \<Rightarrow> node \<Rightarrow> pyerror + node" where
  "remove_attrs_step v soup =
     (if truthy v \<and> find_all_tags soup \<noteq> []
      then (case iter_strs v of
              Inl e \<Rightarrow> Inl e
            | Inr remove_attrs \<Rightarrow>
                Inr (fold (remove_attrs_tag remove_attrs) (find_all_tags soup) soup))
      else Inr soup)"

text \<open>
  Removing classes. Python builds sets here; the order in which \<open>list(classes)\<close> lists
  the set that is left is not fixed by the language, so it is the parameter \<open>set_order\<close>.
\<close>

fun class_tokens :: "attr_value option \<Rightarrow> pystr list" where
  "class_tokens None = []"
| "class_tokens (Some (Multi cs)) = cs"
| "class_tokens (Some (Single s)) = map (\<lambda>c. [c]) s"

definition remove_classes_tag ::
    "(pystr list \<Rightarrow> pystr list) \<Rightarrow> pystr list \<Rightarrow> nat \<Rightarrow> node \<Rightarrow> node" where
  "remove_classes_tag set_order remove_classes i soup =
     (case lookup i soup of
        Some (Tag j name as contents) \<Rightarrow>
          (let classes = remdups (class_tokens (map_of as (str ''class'')));
               classes_to_remove = filter (\<lambda>c. c \<in> set remove_classes) classes
           in if classes_to_remove \<noteq> []
              then (let classes1 = filter (\<lambda>c. c \<notin> set classes_to_remove) classes
                    in if classes1 \<noteq> []
                       then set_attrs i
                              (AList.update (str ''class'') (Multi (set_order classes1)) as) soup
                       else set_attrs i (AList.delete (str ''class'') as) soup)
              else soup)
      | _ \<Rightarrow> soup)"

definition remove_classes_step ::
    "(pystr list \<Rightarrow> pystr list) \<Rightarrow> pyval \<Rightarrow> node \<Rightarrow> pyerror + node" where
  "remove_classes_step set_order v soup =
     (if truthy v \<and> find_all_class soup \<noteq> []
      then (case iter_strs v of
              Inl e \<Rightarrow> Inl e
            | Inr remove_classes \<Rightarrow>
                Inr (fold (remove_classes_tag set_order remove_classes) (find_all_class soup)
                       soup))
      else Inr soup)"

text \<open>
  Removing empty tags: \<open>for tag in soup.find_all(): if not tag.contents and tag.name not
  in ['img', 'br', 'hr', 'input', 'meta', 'link']: tag.decompose()\<close>. The list is computed
  once, before the loop; each tag is tested in the state the tree is in when its turn
  comes. There is no second pass.
\<close>

definition void_names :: "pystr list" where
  "void_names = [str ''img'', str ''br'', str ''hr'', str ''input'', str ''meta'', str ''link'']"

definition remove_empty_tag :: "nat \<Rightarrow> node \<Rightarrow> node" where
  "remove_empty_tag i soup =
     (case lookup i soup of
        Some (Tag j name as contents) \<Rightarrow>
          (if contents = [] \<and> name \<notin> set void_names then decompose i soup else soup)
      | _ \<Rightarrow> soup)"

definition remove_empty_tags_step :: "node \<Rightarrow> node" where
  "remove_empty_tags_step soup = fold remove_empty_tag (find_all_tags soup) soup"

text \<open>
  Removing comments.
\<close>

definition remove_comments_step :: "node \<Rightarrow> node" where
  "remove_comments_step soup = fold extract_node (find_all_comments soup) soup"

text \<open>
  \<open>_preprocess\<close>: \<open>clean_options = self.options.get("clean", {})\<close>, whose \<open>get\<close> exists
  only on a dictionary, then the five steps in the order of the source, each with its
  default. A step that raises ends the call.
\<close>

definition default_remove_tags :: pyval where
  "default_remove_tags = PList [PStr (str ''script''), PStr (str ''style''), PStr (str ''noscript'')]"

definition preprocess_clean ::
    "(pystr list \<Rightarrow> pystr list) \<Rightarrow> pydict \<Rightarrow> node \<Rightarrow> pyerror + node" where
  "preprocess_clean set_order clean_options soup =
     (case remove_tags_step (dict_get clean_options (str ''removeTags'') default_remove_tags)
             soup of
        Inl e \<Rightarrow> Inl e
      | Inr soup1 \<Rightarrow>
     (case remove_attrs_step (dict_get clean_options (str ''removeAttrs'') (PList [])) soup1 of
        Inl e \<Rightarrow> Inl e
      | Inr soup2 \<Rightarrow>
     (case remove_classes_step set_order
             (dict_get clean_options (str ''removeClasses'') (PList [])) soup2 of
        Inl e \<Rightarrow> Inl e
      | Inr soup3 \<Rightarrow>
          (let soup4 = (if truthy (dict_get clean_options (str ''removeEmptyTags'') (PBool False))
                        then remove_empty_tags_step soup3 else soup3);
               soup5 = (if truthy (dict_get clean_options (str ''removeComments'') (PBool True))
                        then remove_comments_step soup4 else soup4)
           in Inr soup5))))"

definition preprocess ::
    "(pystr list \<Rightarrow> pystr list) \<Rightarrow> pydict \<Rightarrow> node \<Rightarrow> pyerror + node" where
  "preprocess set_order opts soup =
     (case dict_get opts (str ''clean'') (PDict []) of
        PDict clean_options \<Rightarrow> preprocess_clean set_order clean_options soup
      | _ \<Rightarrow> Inl AttributeError)"

subsection \<open>Vocabulary of the statements about the tree\<close>

fun children :: "node \<Rightarrow> node list" where
  "children (Tag i name as contents) = contents"
| "children n = []"

text \<open>
  An element that the pass over empty tags removes when it meets it unchanged: a tag
  without contents whose name is not in the list of void elements.
\<close>

fun removable :: "node \<Rightarrow> bool" where
  "removable (Tag i name as contents) = (contents = [] \<and> name \<notin> set void_names)"
| "removable n = False"

text \<open>
  One round of removal, said without identities or loops: at every level the elements that
  are empty in the given tree go, everything else stays, and the same is done inside what
  stays. An element whose contents all go stays, now empty.
\<close>

fun prune :: "node \<Rightarrow> node" where
  "prune (Tag i name as contents) =
     Tag i name as (map prune (filter (\<lambda>c. \<not> removable c) contents))"
| "prune (NavigableString i s) = NavigableString i s"
| "prune (Comment i s) = Comment i s"

text \<open>
  Taking a set of objects out of the tree at once; used in the proofs only.
\<close>

fun del_set :: "nat set \<Rightarrow> node \<Rightarrow> node" where
  "del_set S (Tag j name as contents) =
     Tag j name as (map (del_set S) (filter (\<lambda>c. node_id c \<notin> S) contents))"
| "del_set S (NavigableString j s) = NavigableString j s"
| "del_set S (Comment j s) = Comment j s"

definition rem_ids :: "node list \<Rightarrow> nat set" where
  "rem_ids ns = node_id ` {n \<in> set ns. removable n}"

definition div_tag :: "nat \<Rightarrow> node list \<Rightarrow> node" where
  "div_tag i contents = Tag i (str ''div'') [] contents"

definition document :: "node list \<Rightarrow> node" where
  "document contents = Tag 0 (str ''[document]'') [] contents"

section \<open>Vocabulary of the statements about the converter\<close>

text \<open>
  The dictionary a caller passed to \<open>__init__\<close> (none counts as empty), and that its
  reference points to an object that exists.
\<close>

definition arg_dict :: "heap \<Rightarrow> nat option \<Rightarrow> pydict" where
  "arg_dict h opts = (case opts of None \<Rightarrow> [] | Some a \<Rightarrow> dict_at h a)"

definition allocated :: "heap \<Rightarrow> nat option \<Rightarrow> bool" where
  "allocated h opts = (case opts of None \<Rightarrow> True | Some a \<Rightarrow> a < next_addr h)"

text \<open>
  The four dialect names.
\<close>

definition known_dialects :: "pystr list" where
  "known_dialects = [str ''commonmark'', str ''github'', str ''traditional'', str ''custom'']"

text \<open>
  The options of a call that are left after \<open>fragment\<close> and \<open>fragment_root\<close> are taken
  out: the overrides.
\<close>

definition extra_options :: "pydict \<Rightarrow> pydict" where
  "extra_options kwargs =
     snd (dict_pop (str ''fragment_root'') (PStr (str ''div''))
       (snd (dict_pop (str ''fragment'') (PBool False) kwargs)))"

text \<open>
  The one thing assumed of a conversion where a statement says so: of the objects that
  existed before, it writes to none but the dictionary and the registry of the service it
  runs on.
\<close>

definition turndown_local :: "turndown \<Rightarrow> bool" where
  "turndown_local td \<longleftrightarrow>
     (\<forall>h s html a. a < next_addr h \<longrightarrow>
        (a \<noteq> options s \<longrightarrow> dicts (snd (td h s html)) a = dicts h a) \<and>
        (a \<noteq> rules s \<longrightarrow> registries (snd (td h s html)) a = registries h a))"

text \<open>
  The settings of the github preset that are named in the statement about the default.
\<close>

definition github_listed :: "(pystr \<times> pyval) list" where
  "github_listed =
     [(str ''headingStyle'', PStr (str ''atx'')),
      (str ''bulletListMarker'', PStr (str ''-'')),
      (str ''codeBlockStyle'', PStr (str ''fenced'')),
      (str ''linkStyle'', PStr (str ''inlined'')),
      (str ''gfm'', PBool True),
      (str ''strikethrough'', PBool True),
      (str ''tables'', PBool True),
      (str ''taskLists'', PBool True)]"

section \<open>States and inputs of the examples\<close>

definition heap_with :: "pydict \<Rightarrow> heap" where
  "heap_with d = \<lparr>dicts = [0 \<mapsto> d], registries = Map.empty, next_addr = 1\<rparr>"

definition default_heap :: heap where
  "default_heap = \<lparr>dicts = [0 \<mapsto> github_options], registries = [1 \<mapsto> default_rules],
     next_addr = 2\<rparr>"

definition default_converter :: converter where
  "default_converter = \<lparr>service = \<lparr>options = 0, rules = 1\<rparr>\<rparr>"

definition clearing_turndown :: turndown where
  "clearing_turndown h s html = (Inr html, set_dict (options s) [] h)"

definition heading_override :: pydict where
  "heading_override = [(str ''headingStyle'', PStr (str ''setext''))]"

definition chain3 :: node where
  "chain3 = document [div_tag 1 [div_tag 2 [div_tag 3 []]]]"

definition chain2 :: node where
  "chain2 = document [div_tag 1 [div_tag 2 []]]"

definition chain1 :: node where
  "chain1 = document [div_tag 1 []]"

definition empty_tags_on :: pydict where
  "empty_tags_on = [(str ''clean'', PDict [(str ''removeEmptyTags'', PBool True)])]"

definition only_empty_tags :: pydict where
  "only_empty_tags =
     [(str ''clean'', PDict [(str ''removeTags'', PList []),
                             (str ''removeEmptyTags'', PBool True),
                             (str ''removeComments'', PBool False)])]"

section \<open>Lemmas on splitting and joining\<close>

lemma split_nl_nonempty: "split_nl s \<noteq> []"
  by (induction s) (auto split: list.splits)

lemma split_nl_no_newline: "l \<in> set (split_nl s) \<Longrightarrow> NL \<notin> set l"
proof (induction s arbitrary: l)
  case Nil
  then show ?case by simp
next
  case (Cons c cs)
  then show ?case
    by (cases "split_nl cs") (auto split: if_splits)
qed

lemma join_nl_Cons: "ls \<noteq> [] \<Longrightarrow> join_nl (l # ls) = l @ NL # join_nl ls"
  by (cases ls) simp_all

lemma split_nl_plain: "NL \<notin> set l \<Longrightarrow> split_nl l = [l]"
  by (induction l) auto

lemma split_nl_append_newline:
  "NL \<notin> set l \<Longrightarrow> split_nl (l @ NL # r) = l # split_nl r"
  by (induction l) auto

lemma split_join:
  "ls \<noteq> [] \<Longrightarrow> \<forall>l \<in> set ls. NL \<notin> set l \<Longrightarrow> split_nl (join_nl ls) = ls"
proof (induction ls rule: join_nl.induct)
  case 1
  then show ?case by simp
next
  case (2 l)
  then show ?case by (simp add: split_nl_plain)
next
  case (3 l v va)
  then show ?case by (simp add: split_nl_append_newline)
qed

lemma split_nl_append:
  "split_nl (a @ NL # b) = butlast (split_nl a) @ last (split_nl a) # split_nl b"
proof (induction a)
  case Nil
  then show ?case by simp
next
  case (Cons c cs)
  then show ?case
    using split_nl_nonempty [of cs] by (cases "split_nl cs") (auto split: list.splits)
qed

section \<open>Lemmas on the loop of the postprocessing step\<close>

lemma postprocess_loop_kept:
  "postprocess_loop ls result prev_empty = result @ kept_lines ls prev_empty"
  by (induction ls arbitrary: result prev_empty) (simp_all add: blank_def Let_def)

lemma kept_lines_subset: "set (kept_lines ls p) \<subseteq> set ls"
  by (induction ls arbitrary: p) auto

lemma kept_lines_nonempty: "ls \<noteq> [] \<Longrightarrow> kept_lines ls False \<noteq> []"
  by (cases ls) simp_all

lemma kept_lines_head_blank:
  "kept_lines ls p = a # rest \<Longrightarrow> p \<Longrightarrow> \<not> blank a"
  by (induction ls arbitrary: p) (auto split: if_splits)

lemma kept_lines_no_adjacent: "\<not> adjacent_blank (kept_lines ls p)"
proof (induction ls arbitrary: p)
  case Nil
  then show ?case by simp
next
  case (Cons l ls)
  show ?case
  proof (cases "blank l \<and> p")
    case True
    then show ?thesis using Cons.IH [of p] by simp
  next
    case False
    then have eq: "kept_lines (l # ls) p = l # kept_lines ls (blank l)"
      by auto
    show ?thesis
    proof (cases "kept_lines ls (blank l)")
      case Nil
      with eq show ?thesis by simp
    next
      case (Cons a rest)
      have "\<not> (blank l \<and> blank a)"
        using kept_lines_head_blank [OF Cons] by blast
      moreover have "\<not> adjacent_blank (a # rest)"
        using Cons.IH [of "blank l"] Cons by simp
      ultimately show ?thesis using eq Cons by simp
    qed
  qed
qed


lemma postprocess_lines:
  "split_nl (postprocess s) = kept_lines (split_nl s) False"
proof -
  have "kept_lines (split_nl s) False \<noteq> []"
    by (rule kept_lines_nonempty) (rule split_nl_nonempty)
  moreover have "\<forall>l \<in> set (kept_lines (split_nl s) False). NL \<notin> set l"
    using kept_lines_subset split_nl_no_newline by blast
  ultimately show ?thesis
    by (simp add: postprocess_def postprocess_loop_kept split_join)
qed

lemma upt_shift: "[0..<Suc n] = 0 # map Suc [0..<n]"
  by (simp add: upt_conv_Cons map_Suc_upt del: upt_Suc)

lemma kept_lines_index:
  "kept_lines ls p =
     map (\<lambda>i. ls ! i)
       (filter (\<lambda>i. \<not> (blank (ls ! i) \<and> (if i = 0 then p else blank (ls ! (i - 1)))))
          [0..<length ls])"
proof (induction ls arbitrary: p)
  case Nil
  then show ?case by simp
next
  case (Cons l ls)
  have step: "map ((!) (l # ls))
       (filter (\<lambda>i. \<not> (blank ((l # ls) ! i) \<and> (if i = 0 then p else blank ((l # ls) ! (i - 1)))))
          (map Suc [0..<length ls]))
     = kept_lines ls (blank l)"
    unfolding Cons.IH [of "blank l"] filter_map map_map comp_def
    by (rule arg_cong2 [where f = map], rule ext, simp, rule filter_cong, simp, auto simp: nth_Cons')
  show ?case
    unfolding length_Cons upt_shift
    using step Cons.IH [of p] by (simp del: upt_Suc)
qed

lemma kept_lines_collapse: "kept_lines ls False = collapse_blank_runs ls"
  unfolding kept_lines_index collapse_blank_runs_def
  by (rule arg_cong [where f = "map _"], rule filter_cong) auto

lemma adjacent_blank_mid: "adjacent_blank (xs @ [] # [] # ys)"
  by (induction xs rule: adjacent_blank.induct) (auto simp: blank_def strip_def)

lemma triple_newline_lines:
  "adjacent_blank (split_nl (ps @ NL # NL # NL # ss))"
proof -
  have "split_nl (ps @ NL # NL # NL # ss)
      = butlast (split_nl ps) @ last (split_nl ps) # [] # [] # split_nl ss"
    by (simp add: split_nl_append)
  also have "\<dots> = (butlast (split_nl ps) @ [last (split_nl ps)]) @ [] # [] # split_nl ss"
    by simp
  finally show ?thesis by (simp only: adjacent_blank_mid)
qed



section \<open>Lemmas on dictionaries, services and converters\<close>

lemma str_inject: "str a = str b \<longleftrightarrow> a = b"
  unfolding str_def by (rule inj_map_eq_map) (simp add: inj_on_def)

lemma map_of_dict_update:
  "distinct (map fst other) \<Longrightarrow> map_of (dict_update d other) = map_of d ++ map_of other"
proof (induction other arbitrary: d)
  case Nil
  then show ?case by (simp add: dict_update_def)
next
  case (Cons kv other)
  obtain k v where kv: "kv = (k, v)" by (cases kv)
  have notin: "map_of other k = None"
    using Cons.prems kv by (simp add: map_of_eq_None_iff)
  have dist: "distinct (map fst other)"
    using Cons.prems by simp
  have "dict_update d (kv # other) = dict_update (AList.update k v d) other"
    by (simp add: dict_update_def kv)
  then have "map_of (dict_update d (kv # other)) = map_of (AList.update k v d) ++ map_of other"
    by (simp only: Cons.IH [OF dist])
  also have "\<dots> = map_of d ++ map_of (kv # other)"
  proof (rule ext)
    fix x
    show "(map_of (AList.update k v d) ++ map_of other) x = (map_of d ++ map_of (kv # other)) x"
      using notin
      by (cases "x = k") (simp_all add: map_add_def update_conv kv split: option.split)
  qed
  finally show ?case .
qed

lemma dict_pop_eq: "dict_pop k dflt d = (dict_get d k dflt, AList.delete k d)"
proof (cases "map_of d k")
  case None
  then have "k \<notin> fst ` set d" by (simp add: map_of_eq_None_iff)
  then show ?thesis using None by (simp add: dict_pop_def dict_get_def)
next
  case (Some v)
  then show ?thesis by (simp add: dict_pop_def dict_get_def)
qed

lemma dict_at_set_dict:
  "dict_at (set_dict a d h) b = (if b = a then d else dict_at h b)"
  by (simp add: set_dict_def dict_at_def)

lemma dicts_service_register_rule:
  "dicts (service_register_rule h s name r) = dicts h"
  by (simp add: service_register_rule_def)

lemma next_addr_service_register_rule:
  "next_addr (service_register_rule h s name r) = next_addr h"
  by (simp add: service_register_rule_def)

lemma registry_at_service_register_rule:
  "registry_at (service_register_rule h s name r) a =
     (if a = rules s then registry_at h a @ [(name, r)] else registry_at h a)"
  by (simp add: service_register_rule_def registry_add_def registry_at_def)

lemma registries_service_register_rule_other:
  "a \<noteq> rules s \<Longrightarrow> registries (service_register_rule h s name r) a = registries h a"
  by (simp add: service_register_rule_def)

lemma register_fold_frame:
  "dicts (fold (\<lambda>(name, r) h'. service_register_rule h' s name r) rs h) = dicts h \<and>
   next_addr (fold (\<lambda>(name, r) h'. service_register_rule h' s name r) rs h) = next_addr h \<and>
   registry_at (fold (\<lambda>(name, r) h'. service_register_rule h' s name r) rs h) (rules s)
     = registry_at h (rules s) @ rs \<and>
   (\<forall>a. a \<noteq> rules s \<longrightarrow>
      registries (fold (\<lambda>(name, r) h'. service_register_rule h' s name r) rs h) a
        = registries h a)"
proof (induction rs arbitrary: h)
  case Nil
  then show ?case by simp
next
  case (Cons x rs)
  obtain n r where x: "x = (n, r)" by (cases x)
  show ?case
    using Cons.IH [of "service_register_rule h s n r"]
    by (simp add: x dicts_service_register_rule next_addr_service_register_rule
        registry_at_service_register_rule registries_service_register_rule_other)
qed

lemma register_default_rules_frame:
  "dicts (register_default_rules h s) = dicts h"
  "next_addr (register_default_rules h s) = next_addr h"
  "a = rules s \<Longrightarrow>
     registry_at (register_default_rules h s) a = registry_at h a @ default_rules"
  "a \<noteq> rules s \<Longrightarrow> registries (register_default_rules h s) a = registries h a"
  using register_fold_frame [of s default_rules h]
  by (simp_all add: register_default_rules_def)

lemma service_init_unfold:
  "Html2MarkdownService_init h (Some a) =
     (if dict_at h a \<noteq> []
      then (let s = \<lparr>options = a, rules = next_addr h\<rparr>
            in (s, register_default_rules
                     (h\<lparr>registries := (registries h)(next_addr h \<mapsto> []),
                        next_addr := Suc (next_addr h)\<rparr>) s))
      else (let s = \<lparr>options = next_addr h, rules = Suc (next_addr h)\<rparr>
            in (s, register_default_rules
                     (h\<lparr>dicts := (dicts h)(next_addr h \<mapsto> []),
                        registries := (registries h)(Suc (next_addr h) \<mapsto> []),
                        next_addr := Suc (Suc (next_addr h))\<rparr>) s)))"
  by (simp add: Html2MarkdownService_init_def or_new_dict_def new_registry_def new_dict_def
      Let_def)

lemma service_init_effect:
  assumes "Html2MarkdownService_init h (Some a) = (s, h')"
  shows "dict_at h' (options s) = dict_at h a"
    and "registry_at h' (rules s) = default_rules"
    and "next_addr h \<le> rules s"
    and "options s = a \<or> next_addr h \<le> options s"
    and "b < next_addr h \<Longrightarrow> dicts h' b = dicts h b"
    and "b < next_addr h \<Longrightarrow> registries h' b = registries h b"
    and "next_addr h \<le> next_addr h'"
    and "rules s < next_addr h'"
    and "a < next_addr h \<Longrightarrow> options s < next_addr h'"
proof -
  show "registry_at h' (rules s) = default_rules"
    using assms unfolding service_init_unfold
    by (auto simp: Let_def register_default_rules_frame(3) split: if_splits)
       (simp_all add: registry_at_def)
  show "dict_at h' (options s) = dict_at h a"
    using assms unfolding service_init_unfold
    by (auto simp: Let_def register_default_rules_frame(1) dict_at_def split: if_splits)
  show "next_addr h \<le> rules s" "options s = a \<or> next_addr h \<le> options s"
    using assms unfolding service_init_unfold
    by (auto simp: Let_def split: if_splits)
  show "next_addr h \<le> next_addr h'"
    using assms unfolding service_init_unfold
    by (auto simp: Let_def register_default_rules_frame(2) split: if_splits)
  show "rules s < next_addr h'"
    using assms unfolding service_init_unfold
    by (auto simp: Let_def register_default_rules_frame(2) split: if_splits)
  show "options s < next_addr h'" if "a < next_addr h"
    using assms that unfolding service_init_unfold
    by (auto simp: Let_def register_default_rules_frame(2) split: if_splits)
  show "dicts h' b = dicts h b" if "b < next_addr h"
    using assms that unfolding service_init_unfold
    by (auto simp: Let_def register_default_rules_frame(1) split: if_splits)
  show "registries h' b = registries h b" if "b < next_addr h"
    using assms that unfolding service_init_unfold
    by (auto simp: Let_def register_default_rules_frame(4) split: if_splits)
qed

lemma or_new_dict_effect:
  assumes "or_new_dict opts h = (oa, h1)" and "allocated h opts"
  shows "dict_at h1 oa = arg_dict h opts"
    and "oa < next_addr h1"
    and "next_addr h \<le> next_addr h1"
    and "b < next_addr h \<Longrightarrow> b \<noteq> oa \<Longrightarrow> dicts h1 b = dicts h b"
    and "registries h1 = registries h"
  using assms
  by (auto simp: or_new_dict_def new_dict_def arg_dict_def allocated_def dict_at_def
      split: option.splits if_splits)

lemma converter_init_effect:
  assumes alloc: "allocated h opts"
    and dist: "distinct (map fst (arg_dict h opts))"
    and preset: "get_dialect_options
        (dict_get (arg_dict h opts) (str ''dialect'') (PStr (str ''github''))) = Inr preset"
    and init: "Html2MarkdownConverter_init h opts = (res, h')"
  shows "\<exists>c. res = Inr c \<and>
           map_of (dict_at h' (options (service c)))
             = map_of preset ++ (map_of (arg_dict h opts))(str ''dialect'' := None) \<and>
           registry_at h' (rules (service c)) = default_rules \<and>
           options (service c) < next_addr h' \<and> rules (service c) < next_addr h'"
proof -
  define u where "u = arg_dict h opts"
  define popped where "popped = AList.delete (str ''dialect'') u"
  obtain oa h1 where o: "or_new_dict opts h = (oa, h1)" by (cases "or_new_dict opts h")
  note o1 = or_new_dict_effect [OF o alloc]
  define h2 where "h2 = set_dict oa popped h1"
  define h3 where "h3 = snd (new_dict preset h2)"
  define da where "da = next_addr h1"
  define h4 where "h4 = (if dict_at h3 oa \<noteq> []
      then set_dict da (dict_update (dict_at h3 da) (dict_at h3 oa)) h3 else h3)"
  obtain s h5 where s: "Html2MarkdownService_init h4 (Some da) = (s, h5)"
    by (cases "Html2MarkdownService_init h4 (Some da)")
  have nd: "new_dict preset h2 = (da, h3)"
    by (simp add: new_dict_def h3_def da_def h2_def set_dict_def)
  have res: "(res, h') = (Inr \<lparr>service = s\<rparr>, h5)"
    using init preset o1(1) s
    unfolding Html2MarkdownConverter_init_def o dict_pop_eq
    by (simp add: nd u_def [symmetric] popped_def [symmetric] h2_def [symmetric]
        h4_def [symmetric] Let_def)
  have ne: "da \<noteq> oa" using o1(2) by (simp add: da_def)
  have at_oa: "dict_at h3 oa = popped"
    using ne by (simp add: h3_def new_dict_def h2_def set_dict_def dict_at_def da_def)
  have at_da: "dict_at h3 da = preset"
    by (simp add: h3_def new_dict_def h2_def set_dict_def dict_at_def da_def)
  have dpop: "distinct (map fst popped)"
    using dist by (simp add: popped_def u_def distinct_delete)
  have merged: "map_of (dict_at h4 da) = map_of preset ++ map_of popped"
  proof (cases "popped = []")
    case True
    then show ?thesis by (simp add: h4_def at_oa at_da)
  next
    case False
    then have "h4 = set_dict da (dict_update preset popped) h3"
      by (simp add: h4_def at_oa at_da)
    then have "dict_at h4 da = dict_update preset popped"
      by (simp add: dict_at_set_dict)
    then show ?thesis by (simp add: map_of_dict_update [OF dpop])
  qed
  have "map_of (dict_at h5 (options s)) = map_of preset ++ (map_of u)(str ''dialect'' := None)"
    using service_init_effect(1) [OF s] merged by (simp add: popped_def delete_conv')
  moreover have "registry_at h5 (rules s) = default_rules"
    by (rule service_init_effect(2) [OF s])
  moreover have "da < next_addr h4"
    by (simp add: h4_def set_dict_def h3_def new_dict_def h2_def da_def)
  then have "options s < next_addr h5"
    by (rule service_init_effect(9) [OF s])
  moreover have "rules s < next_addr h5"
    by (rule service_init_effect(8) [OF s])
  ultimately show ?thesis using res by (simp add: u_def)
qed

lemma get_dialect_options_unknown:
  "d \<notin> set known_dialects \<Longrightarrow> get_dialect_options (PStr d) = Inr []"
  by (simp add: get_dialect_options_def dialect_options_def known_dialects_def)

lemma get_dialect_options_github:
  "get_dialect_options (PStr (str ''github'')) = Inr github_options"
  by (simp add: get_dialect_options_def dialect_options_def str_inject)

lemma github_listed_preset:
  "(k, v) \<in> set github_listed \<Longrightarrow> map_of github_options k = Some v"
  by (auto simp: github_listed_def github_options_def str_inject)

lemma github_listed_not_dialect:
  "(k, v) \<in> set github_listed \<Longrightarrow> k \<noteq> str ''dialect''"
  by (auto simp: github_listed_def str_inject)

lemma text_rule_index_split:
  "str ''text'' \<in> fst ` set rs \<Longrightarrow>
     \<exists>pre tr post. rs = pre @ (str ''text'', tr) # post \<and> str ''text'' \<notin> fst ` set pre \<and>
        text_rule_index i rs = i + int (length pre)"
proof (induction rs arbitrary: i)
  case Nil
  then show ?case by simp
next
  case (Cons x rs)
  obtain n r where x: "x = (n, r)" by (cases x)
  show ?case
  proof (cases "n = str ''text''")
    case True
    then have "x # rs = [] @ (str ''text'', r) # rs \<and> str ''text'' \<notin> fst ` set [] \<and>
        text_rule_index i (x # rs) = i + int (length ([] :: (pystr \<times> rule) list))"
      by (simp add: x)
    then show ?thesis by blast
  next
    case False
    with Cons.prems x have "str ''text'' \<in> fst ` set rs" by auto
    from Cons.IH [OF this, of "i + 1"] obtain pre tr post where
      "rs = pre @ (str ''text'', tr) # post" "str ''text'' \<notin> fst ` set pre"
      "text_rule_index (i + 1) rs = i + 1 + int (length pre)" by blast
    then have "x # rs = (x # pre) @ (str ''text'', tr) # post \<and>
        str ''text'' \<notin> fst ` set (x # pre) \<and>
        text_rule_index i (x # rs) = i + int (length (x # pre))"
      using False by (simp add: x)
    then show ?thesis by blast
  qed
qed


lemma convert_html_overrides:
  assumes ex: "extra_options kwargs \<noteq> []"
  shows "\<exists>temp h3 html1.
      convert_html td fmt h self html kwargs = td h3 temp html1 \<and>
      next_addr h \<le> options temp \<and> next_addr h \<le> rules temp \<and>
      next_addr h \<le> next_addr h3 \<and>
      registry_at h3 (rules temp) = default_rules \<and>
      (\<forall>b < next_addr h. dicts h3 b = dicts h b \<and> registries h3 b = registries h b)"
proof -
  define kwargs2 where "kwargs2 = extra_options kwargs"
  define oa where "oa = next_addr h"
  define h1 where "h1 = snd (new_dict (dict_at h (options (service self))) h)"
  define h2 where "h2 = set_dict oa (dict_update (dict_at h1 oa) kwargs2) h1"
  obtain temp h3 where t: "Html2MarkdownService_init h2 (Some oa) = (temp, h3)"
    by (cases "Html2MarkdownService_init h2 (Some oa)")
  have nd: "new_dict (dict_at h (options (service self))) h = (oa, h1)"
    by (simp add: new_dict_def oa_def h1_def)
  have k2: "snd (dict_pop (str ''fragment_root'') (PStr (str ''div''))
       (snd (dict_pop (str ''fragment'') (PBool False) kwargs))) = kwargs2"
    by (simp add: kwargs2_def extra_options_def)
  have "convert_html td fmt h self html kwargs = td h3 temp
      (if truthy (fst (dict_pop (str ''fragment'') (PBool False) kwargs))
       then str ''<'' @ format_value fmt
              (fst (dict_pop (str ''fragment_root'') (PStr (str ''div''))
                (snd (dict_pop (str ''fragment'') (PBool False) kwargs)))) @ str ''>'' @ html
            @ str ''</'' @ format_value fmt
              (fst (dict_pop (str ''fragment_root'') (PStr (str ''div''))
                (snd (dict_pop (str ''fragment'') (PBool False) kwargs)))) @ str ''>''
       else html)"
    using ex t unfolding convert_html_def
    by (simp add: split_beta Let_def k2 nd h2_def [symmetric] kwargs2_def [symmetric])
  then have "\<exists>html1. convert_html td fmt h self html kwargs = td h3 temp html1"
    by (rule exI)
  moreover have n2: "next_addr h2 = Suc (next_addr h)"
    by (simp add: h2_def set_dict_def h1_def new_dict_def)
  moreover have "dicts h2 b = dicts h b" "registries h2 b = registries h b"
    if "b < next_addr h" for b
    using that by (simp_all add: h2_def set_dict_def h1_def new_dict_def oa_def)
  ultimately show ?thesis
    using service_init_effect [OF t]
    by (intro exI [of _ temp] exI [of _ h3]) (auto simp: oa_def)
qed


lemma arg_dict_heap_with: "arg_dict (heap_with d) (Some 0) = d"
  by (simp add: arg_dict_def heap_with_def dict_at_def)

lemma allocated_heap_with: "allocated (heap_with d) (Some 0)"
  by (simp add: allocated_def heap_with_def)

section \<open>Lemmas on the tree\<close>

lemma node_id_del_set [simp]: "node_id (del_set S t) = node_id t"
  by (cases t) simp_all

lemma is_tag_del_set [simp]: "is_tag (del_set S t) = is_tag t"
  by (cases t) simp_all

lemma decompose_del_set: "decompose i t = del_set {i} t"
  by (induction t) (simp_all cong: map_cong)

lemma del_set_del_set: "del_set A (del_set B t) = del_set (A \<union> B) t"
proof (induction t)
  case (Tag j name as contents)
  have "map (del_set A) (filter (\<lambda>c. node_id c \<notin> A)
          (map (del_set B) (filter (\<lambda>c. node_id c \<notin> B) contents)))
      = map (del_set (A \<union> B)) (filter (\<lambda>c. node_id c \<notin> A \<union> B) contents)"
    using Tag.IH by (induction contents) auto
  then show ?case by simp
qed simp_all

lemma del_set_empty: "del_set {} t = t"
  by (induction t) (simp_all add: map_idI)

lemma descendants_leaf: "children n = [] \<Longrightarrow> descendants n = []"
  by (cases n) simp_all

lemma children_in_descendants: "c \<in> set (children t) \<Longrightarrow> c \<in> set (descendants t)"
  by (cases t) auto

lemma descendants_trans:
  "c \<in> set (children t) \<Longrightarrow> set (descendants c) \<subseteq> set (descendants t)"
  by (cases t) auto

lemma descendants_del_set:
  "(\<And>n. n \<in> set (descendants t) \<Longrightarrow> node_id n \<in> S \<Longrightarrow> children n = []) \<Longrightarrow>
   descendants (del_set S t) =
     map (del_set S) (filter (\<lambda>n. node_id n \<notin> S) (descendants t))"
proof (induction t)
  case (Tag j name as contents)
  have leaf: "children n = []"
    if "c \<in> set contents" "n = c \<or> n \<in> set (descendants c)" "node_id n \<in> S" for c n
    using that Tag.prems [of n] by auto
  have "set cs \<subseteq> set contents \<Longrightarrow>
      concat (map (\<lambda>c. c # descendants c)
        (map (del_set S) (filter (\<lambda>c. node_id c \<notin> S) cs)))
    = map (del_set S) (filter (\<lambda>n. node_id n \<notin> S)
        (concat (map (\<lambda>c. c # descendants c) cs)))" for cs
  proof (induction cs)
    case Nil
    then show ?case by simp
  next
    case (Cons c cs)
    then have c: "c \<in> set contents" and cs: "set cs \<subseteq> set contents" by auto
    show ?case
    proof (cases "node_id c \<in> S")
      case True
      then have "descendants c = []"
        using leaf [OF c, of c] by (simp add: descendants_leaf)
      with True Cons.IH [OF cs] show ?thesis by simp
    next
      case False
      have "descendants (del_set S c)
          = map (del_set S) (filter (\<lambda>n. node_id n \<notin> S) (descendants c))"
        using Tag.IH [OF c] leaf [OF c] by blast
      with False Cons.IH [OF cs] show ?thesis by simp
    qed
  qed
  from this [of contents] show ?case by simp
qed simp_all

lemma find_map_filter:
  "find (\<lambda>n. node_id n = i) (map (del_set S) (filter (\<lambda>n. node_id n \<notin> S) xs))
     = (if i \<in> S then None else map_option (del_set S) (find (\<lambda>n. node_id n = i) xs))"
  by (induction xs) auto

lemma lookup_del_set:
  "(\<And>n. n \<in> set (descendants t) \<Longrightarrow> node_id n \<in> S \<Longrightarrow> children n = []) \<Longrightarrow> i \<notin> S \<Longrightarrow>
     lookup i (del_set S t) = map_option (del_set S) (lookup i t)"
  by (simp add: lookup_def descendants_del_set find_map_filter)

lemma find_distinct_id:
  "distinct (map node_id xs) \<Longrightarrow> n \<in> set xs \<Longrightarrow> find (\<lambda>m. node_id m = node_id n) xs = Some n"
  by (induction xs) (auto simp: rev_image_eqI)

lemma same_id_same_node:
  "distinct (map node_id xs) \<Longrightarrow> n \<in> set xs \<Longrightarrow> m \<in> set xs \<Longrightarrow> node_id m = node_id n \<Longrightarrow>
     m = n"
  by (metis find_distinct_id option.inject)

lemma children_after:
  "descendants t = xs @ n # ys \<Longrightarrow> set (children n) \<subseteq> set ys"
proof (induction t arbitrary: xs ys)
  case (Tag j name as contents)
  have "set cs \<subseteq> set contents \<Longrightarrow>
      concat (map (\<lambda>c. c # descendants c) cs) = xs @ n # ys \<Longrightarrow>
      set (children n) \<subseteq> set ys" for cs xs ys
  proof (induction cs arbitrary: xs)
    case Nil
    then show ?case by simp
  next
    case (Cons c cs)
    then have c: "c \<in> set contents" and cs: "set cs \<subseteq> set contents" by auto
    let ?rest = "concat (map (\<lambda>c. c # descendants c) cs)"
    from Cons.prems(2) have eq: "c # descendants c @ ?rest = xs @ n # ys" by simp
    show ?case
    proof (cases xs)
      case Nil
      with eq have "n = c" "ys = descendants c @ ?rest" by auto
      then show ?thesis using children_in_descendants [of _ c] by auto
    next
      case (Cons x xs')
      with eq have "descendants c @ ?rest = xs' @ n # ys" by auto
      then consider us where "descendants c = xs' @ us" "us @ ?rest = n # ys" "us \<noteq> []"
        | us where "descendants c @ us = xs'" "?rest = us @ n # ys"
        by (auto simp: append_eq_append_conv2) (metis append_Nil2 append_self_conv2)+
      then show ?thesis
      proof cases
        case 1
        then obtain us' where "us = n # us'" "ys = us' @ ?rest"
          by (cases us) auto
        with 1 have "descendants c = xs' @ n # us'" by simp
        from Tag.IH [OF c this] show ?thesis using \<open>ys = us' @ ?rest\<close> by auto
      next
        case 2
        from Cons.IH [OF cs 2(2)] show ?thesis .
      qed
    qed
  qed
  from this [of contents xs ys] Tag.prems show ?case by simp
qed simp_all

lemma removable_children: "removable n \<Longrightarrow> children n = []"
  by (cases n) simp_all

lemma removable_is_tag: "removable n \<Longrightarrow> is_tag n"
  by (cases n) simp_all

lemma filter_split:
  "filter P zs = pre @ n # post \<Longrightarrow>
     \<exists>xs ys. zs = xs @ n # ys \<and> filter P xs = pre \<and> filter P ys = post"
proof (induction zs arbitrary: pre)
  case Nil
  then show ?case by simp
next
  case (Cons z zs)
  show ?case
  proof (cases "P z")
    case False
    with Cons.prems have "filter P zs = pre @ n # post" by simp
    from Cons.IH [OF this] obtain xs ys where
      "zs = xs @ n # ys" "filter P xs = pre" "filter P ys = post" by blast
    with False have "z # zs = (z # xs) @ n # ys \<and> filter P (z # xs) = pre \<and> filter P ys = post"
      by simp
    then show ?thesis by blast
  next
    case True
    show ?thesis
    proof (cases pre)
      case Nil
      with True Cons.prems have "z # zs = [] @ n # zs \<and> filter P [] = pre \<and> filter P zs = post"
        by simp
      then show ?thesis by blast
    next
      case (Cons p pre')
      with True Cons.prems have "z = p" "filter P zs = pre' @ n # post" by simp_all
      from Cons.IH [OF this(2)] obtain xs ys where
        "zs = xs @ n # ys" "filter P xs = pre'" "filter P ys = post" by blast
      with True Cons \<open>z = p\<close>
      have "z # zs = (z # xs) @ n # ys \<and> filter P (z # xs) = pre \<and> filter P ys = post"
        by simp
      then show ?thesis by blast
    qed
  qed
qed

lemma remove_empty_tag_step:
  assumes dist: "distinct (map node_id (descendants t0))"
    and tags: "filter is_tag (descendants t0) = pre @ n # post"
  shows "remove_empty_tag (node_id n) (del_set (rem_ids pre) t0)
      = del_set (rem_ids (pre @ [n])) t0"
proof -
  from filter_split [OF tags] obtain xs ys where
    D: "descendants t0 = xs @ n # ys" and xs: "filter is_tag xs = pre" by blast
  have pre_sub: "set pre \<subseteq> set xs" using xs by auto
  have n_in: "n \<in> set (descendants t0)" using D by simp
  have "n \<in> set (filter is_tag (descendants t0))" using tags by simp
  then have "is_tag n" by simp
  then obtain i nm as cs where n: "n = Tag i nm as cs" by (cases n) simp_all
  have ids_xs: "node_id m \<noteq> node_id p" if "m \<in> set (n # ys)" "p \<in> set xs" for m p
    using dist that unfolding D by (auto simp: image_iff)
  have leaf: "children m = []"
    if "m \<in> set (descendants t0)" "node_id m \<in> rem_ids pre" for m
  proof -
    from that(2) obtain p where p: "p \<in> set pre" "removable p" "node_id p = node_id m"
      by (auto simp: rem_ids_def)
    then have "p \<in> set (descendants t0)" using pre_sub D by auto
    from same_id_same_node [OF dist that(1) this p(3)] have "p = m" .
    with p(2) show ?thesis by (simp add: removable_children)
  qed
  have notin: "node_id m \<notin> rem_ids pre" if "m \<in> set (n # ys)" for m
    using ids_xs [OF that] pre_sub by (auto simp: rem_ids_def)
  have i_notin: "i \<notin> rem_ids pre"
    using notin [of n] n by simp
  have kids: "node_id c \<notin> rem_ids pre" if "c \<in> set cs" for c
    using children_after [OF D] that n notin [of c] by auto
  have "lookup i t0 = Some n"
    using find_distinct_id [OF dist n_in] n by (simp add: lookup_def)
  then have look: "lookup i (del_set (rem_ids pre) t0)
      = Some (Tag i nm as (map (del_set (rem_ids pre)) cs))"
    using lookup_del_set [of t0 "rem_ids pre" i] leaf i_notin kids
    by (simp add: n filter_id_conv)
  have "{m \<in> set (pre @ [n]). removable m}
      = (if removable n then insert n {m \<in> set pre. removable m}
         else {m \<in> set pre. removable m})"
    by auto
  then have R': "rem_ids (pre @ [n])
      = (if removable n then insert i (rem_ids pre) else rem_ids pre)"
    by (simp add: rem_ids_def n)
  show ?thesis
  proof (cases "removable n")
    case True
    then have "cs = []" "nm \<notin> set void_names" by (simp_all add: n)
    then have "remove_empty_tag (node_id n) (del_set (rem_ids pre) t0)
        = del_set (insert i (rem_ids pre)) t0"
      by (simp add: remove_empty_tag_def look decompose_del_set del_set_del_set n)
    moreover have "rem_ids (pre @ [n]) = insert i (rem_ids pre)"
      using True by (simp only: R' if_True)
    ultimately show ?thesis by (simp only:)
  next
    case False
    then have "\<not> (cs = [] \<and> nm \<notin> set void_names)" by (simp add: n)
    then have "remove_empty_tag (node_id n) (del_set (rem_ids pre) t0)
        = del_set (rem_ids pre) t0"
      by (auto simp: remove_empty_tag_def look n)
    moreover have "rem_ids (pre @ [n]) = rem_ids pre"
      using False by (simp only: R' if_False)
    ultimately show ?thesis by (simp only:)
  qed
qed

lemma remove_empty_fold:
  assumes dist: "distinct (map node_id (descendants t0))"
  shows "filter is_tag (descendants t0) = pre @ post \<Longrightarrow>
     fold remove_empty_tag (map node_id post) (del_set (rem_ids pre) t0)
       = del_set (rem_ids (pre @ post)) t0"
proof (induction post arbitrary: pre)
  case Nil
  then show ?case by simp
next
  case (Cons n post)
  have "filter is_tag (descendants t0) = (pre @ [n]) @ post"
    using Cons.prems by simp
  from Cons.IH [OF this] remove_empty_tag_step [OF dist Cons.prems]
  show ?case by simp
qed

lemma del_set_prune:
  "(\<And>c. c \<in> set (descendants t) \<Longrightarrow> node_id c \<in> E \<longleftrightarrow> removable c) \<Longrightarrow>
     del_set E t = prune t"
proof (induction t)
  case (Tag j name as contents)
  have f: "filter (\<lambda>c. node_id c \<notin> E) contents = filter (\<lambda>c. \<not> removable c) contents"
    using Tag.prems by (intro filter_cong) auto
  have "del_set E c = prune c" if "c \<in> set contents" for c
    using Tag.IH [OF that] Tag.prems that by auto
  then show ?case by (simp add: f)
qed simp_all

lemmas preprocess_eval =
  preprocess_def preprocess_clean_def dict_get_def str_inject empty_tags_on_def
  remove_tags_step_def default_remove_tags_def find_all_name_def
  remove_attrs_step_def remove_classes_step_def
  remove_empty_tags_step_def find_all_tags_def remove_empty_tag_def lookup_def void_names_def
  remove_comments_step_def find_all_comments_def extract_node_def
  document_def div_tag_def chain1_def chain2_def chain3_def



section \<open>The preprocessing step and empty elements\<close>

text \<open>
  Claim C1, as the specification has it: with \<open>clean.removeEmptyTags\<close> enabled, a chain of
  three nested empty \<open>div\<close> elements is eliminated entirely. The code does not do that: the
  list of tags is \<open>[outer, middle, inner]\<close>; when \<open>outer\<close> and \<open>middle\<close> are tested each still
  has its child, and only \<open>inner\<close> is removed. What is left is \<open><div><div></div></div>\<close>.
\<close>

theorem preprocess_chain_counterexample:
  "preprocess (\<lambda>xs. xs) [(str ''clean'', PDict [(str ''removeEmptyTags'', PBool True)])]
      (document [div_tag 1 [div_tag 2 [div_tag 3 []]]])
     = Inr (document [div_tag 1 [div_tag 2 []]]) \<and>
   preprocess (\<lambda>xs. xs) [(str ''clean'', PDict [(str ''removeEmptyTags'', PBool True)])]
      (document [div_tag 1 [div_tag 2 [div_tag 3 []]]])
     \<noteq> Inr (document [])"
  by (simp add: preprocess_eval)

text \<open>
  Claim C1, amended: with \<open>clean.removeEmptyTags\<close> enabled, the preprocessing step makes one
  pass over the elements in document order, and in a tree whose nodes are all different
  objects that pass removes exactly the elements that were empty before it (no contents,
  name not among img, br, hr, input, meta, link). An element that becomes empty because its
  contents were removed stays. With no tag names to remove and comments kept, this is all
  that preprocessing does.
\<close>

theorem remove_empty_tags_single_pass:
  assumes dist: "distinct (map node_id (descendants soup))"
  shows "remove_empty_tags_step soup = prune soup \<and>
         preprocess set_order only_empty_tags soup = Inr (prune soup)"
proof -
  let ?tags = "filter is_tag (descendants soup)"
  have "remove_empty_tags_step soup = del_set (rem_ids ?tags) soup"
    using remove_empty_fold [OF dist, of "[]" ?tags]
    by (simp add: remove_empty_tags_step_def find_all_tags_def rem_ids_def del_set_empty)
  also have "\<dots> = prune soup"
  proof (rule del_set_prune)
    fix c assume c: "c \<in> set (descendants soup)"
    show "node_id c \<in> rem_ids ?tags \<longleftrightarrow> removable c"
    proof
      assume "node_id c \<in> rem_ids ?tags"
      then obtain p where p: "p \<in> set (descendants soup)" "removable p" "node_id p = node_id c"
        by (auto simp: rem_ids_def)
      from same_id_same_node [OF dist c p(1) p(3)] p(2) show "removable c" by simp
    next
      assume "removable c"
      with c show "node_id c \<in> rem_ids ?tags"
        by (auto simp: rem_ids_def removable_is_tag)
    qed
  qed
  finally have step: "remove_empty_tags_step soup = prune soup" .
  have "preprocess set_order only_empty_tags soup = Inr (remove_empty_tags_step soup)"
    by (simp add: preprocess_def preprocess_clean_def only_empty_tags_def dict_get_def
        str_inject remove_tags_step_def remove_attrs_step_def remove_classes_step_def)
  with step show ?thesis by simp
qed

text \<open>
  Claim C1, the amended statement on the chain of three nested empty \<open>div\<close> elements: the
  innermost goes, the other two stay.
\<close>

theorem remove_empty_tags_single_pass_witness:
  "distinct (map node_id (descendants chain3)) \<and>
   remove_empty_tags_step chain3 = document [div_tag 1 [div_tag 2 []]] \<and>
   preprocess (\<lambda>xs. xs) only_empty_tags chain3 = Inr (document [div_tag 1 [div_tag 2 []]])"
proof -
  have 1: "distinct (map node_id (descendants chain3))"
    by (simp add: chain3_def document_def div_tag_def)
  have 2: "prune chain3 = document [div_tag 1 [div_tag 2 []]]"
    by (simp add: chain3_def document_def div_tag_def void_names_def str_inject)
  from remove_empty_tags_single_pass [OF 1, of "\<lambda>xs. xs"] 1 2 show ?thesis by simp
qed

section \<open>Registering a rule\<close>

text \<open>
  Claim C2 says that a rule registered with a priority index is inserted at that index, and
  so does the docstring of \<open>register_rule\<close>. The code appends it: on a new converter,
  \<open>register_rule("custom", rule, priority=0)\<close> leaves the paragraph rule first and puts the
  new rule last, behind the text rule.
\<close>

theorem register_rule_priority_ignored_example:
  "case Html2MarkdownConverter_init empty_heap None of
     (Inr c, h) \<Rightarrow>
        registry_at (register_rule h c (str ''custom'') (UserRule 0) (Some 0))
            (rules (service c))
          = default_rules @ [(str ''custom'', UserRule 0)] \<and>
        hd (registry_at (register_rule h c (str ''custom'') (UserRule 0) (Some 0))
            (rules (service c)))
          = (str ''paragraph'', ParagraphRule)
   | (Inl e, h) \<Rightarrow> False"
proof -
  obtain res h where i: "Html2MarkdownConverter_init empty_heap None = (res, h)"
    by (cases "Html2MarkdownConverter_init empty_heap None")
  have "get_dialect_options (dict_get (arg_dict empty_heap None) (str ''dialect'')
      (PStr (str ''github''))) = Inr github_options"
    by (simp add: arg_dict_def dict_get_def get_dialect_options_github)
  from converter_init_effect [OF _ _ this i] obtain c where
    c: "res = Inr c" and r: "registry_at h (rules (service c)) = default_rules"
    by (auto simp: allocated_def arg_dict_def)
  have "registry_at (register_rule h c (str ''custom'') (UserRule 0) (Some 0))
      (rules (service c)) = default_rules @ [(str ''custom'', UserRule 0)]"
    by (simp add: register_rule_def registry_at_service_register_rule r)
  then show ?thesis
    by (simp add: i c default_rules_def)
qed

text \<open>
  Claim C3: when \<open>register_rule\<close> is called without a priority and the registry has a rule
  named \<open>text\<close>, the new rule goes immediately before the first such rule, and all other
  rules keep their order: the registry \<open>pre @ text # post\<close> becomes
  \<open>pre @ new # text # post\<close>.
\<close>

theorem register_rule_before_text:
  assumes "str ''text'' \<in> fst ` set (registry_at h (rules (service self)))"
  shows "\<exists>pre tr post.
      registry_at h (rules (service self)) = pre @ (str ''text'', tr) # post \<and>
      str ''text'' \<notin> fst ` set pre \<and>
      registry_at (register_rule h self name r None) (rules (service self))
        = pre @ (name, r) # (str ''text'', tr) # post"
proof -
  from text_rule_index_split [OF assms, of 0] obtain pre tr post where
    rs: "registry_at h (rules (service self)) = pre @ (str ''text'', tr) # post"
    and pre: "str ''text'' \<notin> fst ` set pre"
    and idx: "text_rule_index 0 (registry_at h (rules (service self))) = int (length pre)"
    by auto
  have "registry_at (register_rule h self name r None) (rules (service self))
      = registry_insert name r (length pre) (registry_at h (rules (service self)))"
    using idx by (simp add: register_rule_def get_rules_def Let_def registry_at_def)
  also have "\<dots> = pre @ (name, r) # (str ''text'', tr) # post"
    by (simp add: registry_insert_def rs)
  finally show ?thesis using rs pre by blast
qed

text \<open>
  Claim C3 on the default registry: the rule \<open>custom\<close> lands before the text rule.
\<close>

theorem register_rule_before_text_witness:
  "str ''text'' \<in> fst ` set (registry_at default_heap (rules (service default_converter))) \<and>
   (\<exists>pre post.
      registry_at default_heap (rules (service default_converter))
        = pre @ (str ''text'', TextRule) # post \<and>
      registry_at (register_rule default_heap default_converter (str ''custom'') (UserRule 0) None)
          (rules (service default_converter))
        = pre @ (str ''custom'', UserRule 0) # (str ''text'', TextRule) # post)"
proof -
  have r: "registry_at default_heap (rules (service default_converter)) = default_rules"
    by (simp add: registry_at_def default_heap_def default_converter_def)
  have 1: "str ''text'' \<in> fst ` set (registry_at default_heap (rules (service default_converter)))"
    unfolding r by (simp add: default_rules_def)
  from register_rule_before_text [OF 1, of "str ''custom''" "UserRule 0"]
  obtain pre tr post where
    a: "registry_at default_heap (rules (service default_converter))
          = pre @ (str ''text'', tr) # post"
    and b: "str ''text'' \<notin> fst ` set pre"
    and c: "registry_at (register_rule default_heap default_converter (str ''custom'')
                (UserRule 0) None) (rules (service default_converter))
          = pre @ (str ''custom'', UserRule 0) # (str ''text'', tr) # post"
    by blast
  have "map_of pre (str ''text'') = None"
    using b by (simp add: map_of_eq_None_iff)
  then have "map_of (pre @ (str ''text'', tr) # post) (str ''text'') = Some tr"
    by (simp add: map_add_def)
  then have "map_of default_rules (str ''text'') = Some tr"
    using a by (simp only: r)
  moreover have "map_of default_rules (str ''text'') = Some TextRule"
    by (simp add: default_rules_def str_inject)
  ultimately have "tr = TextRule" by simp
  with 1 a c show ?thesis by blast
qed

section \<open>Dialects and options at construction\<close>

text \<open>
  Claim C4: a dialect name that is none of commonmark, github, traditional and custom does
  not make the construction fail; the lookup gives the empty set of options, and the options
  of the service are exactly what the caller supplied besides the \<open>dialect\<close> entry, which
  \<open>__init__\<close> takes out.
\<close>

theorem unknown_dialect_falls_back:
  assumes "d \<notin> set known_dialects"
    and "map_of (arg_dict h opts) (str ''dialect'') = Some (PStr d)"
    and "allocated h opts"
    and "distinct (map fst (arg_dict h opts))"
  shows "get_dialect_options (PStr d) = Inr [] \<and>
    (case Html2MarkdownConverter_init h opts of
       (Inr c, h') \<Rightarrow>
          map_of (dict_at h' (options (service c)))
            = (map_of (arg_dict h opts))(str ''dialect'' := None)
     | (Inl e, h') \<Rightarrow> False)"
proof -
  have p: "get_dialect_options
      (dict_get (arg_dict h opts) (str ''dialect'') (PStr (str ''github''))) = Inr []"
    using assms(1,2) by (simp add: dict_get_def get_dialect_options_unknown)
  obtain res h' where i: "Html2MarkdownConverter_init h opts = (res, h')"
    by (cases "Html2MarkdownConverter_init h opts")
  from converter_init_effect [OF assms(3,4) p i] assms(1)
  show ?thesis by (auto simp: i get_dialect_options_unknown)
qed

text \<open>
  Claim C4 for the dialect name \<open>kramdown\<close> and one more option.
\<close>

theorem unknown_dialect_falls_back_witness:
  "str ''kramdown'' \<notin> set known_dialects \<and>
   (case Html2MarkdownConverter_init
      (heap_with [(str ''dialect'', PStr (str ''kramdown'')), (str ''gfm'', PBool False)])
      (Some 0) of
      (Inr c, h') \<Rightarrow>
         map_of (dict_at h' (options (service c))) (str ''gfm'') = Some (PBool False) \<and>
         map_of (dict_at h' (options (service c))) (str ''dialect'') = None \<and>
         map_of (dict_at h' (options (service c))) (str ''headingStyle'') = None
    | (Inl e, h') \<Rightarrow> False)"
proof -
  let ?u = "[(str ''dialect'', PStr (str ''kramdown'')), (str ''gfm'', PBool False)]"
  have 1: "str ''kramdown'' \<notin> set known_dialects"
    by (simp add: known_dialects_def str_inject)
  have 2: "map_of (arg_dict (heap_with ?u) (Some 0)) (str ''dialect'') = Some (PStr (str ''kramdown''))"
    by (simp add: arg_dict_heap_with)
  have 3: "distinct (map fst (arg_dict (heap_with ?u) (Some 0)))"
    by (simp add: arg_dict_heap_with str_inject)
  show ?thesis
    using unknown_dialect_falls_back [OF 1 2 allocated_heap_with 3] 1
    by (auto simp: arg_dict_heap_with str_inject split: prod.splits sum.splits)
qed



text \<open>
  Claim C10: without a \<open>dialect\<close> entry the converter takes the github preset. Each of
  headingStyle atx, bulletListMarker -, codeBlockStyle fenced, linkStyle inlined, and gfm,
  strikethrough, tables and taskLists true is in the options of the service, unless the
  caller supplied that key, in which case the caller's value is.
\<close>

theorem default_dialect_is_github:
  assumes "allocated h opts"
    and "distinct (map fst (arg_dict h opts))"
    and "map_of (arg_dict h opts) (str ''dialect'') = None"
  shows "case Html2MarkdownConverter_init h opts of
       (Inr c, h') \<Rightarrow>
         (\<forall>(k, v) \<in> set github_listed.
            map_of (dict_at h' (options (service c))) k = Some (dict_get (arg_dict h opts) k v))
     | (Inl e, h') \<Rightarrow> False"
proof -
  have p: "get_dialect_options
      (dict_get (arg_dict h opts) (str ''dialect'') (PStr (str ''github''))) = Inr github_options"
    using assms(3) by (simp add: dict_get_def get_dialect_options_github)
  obtain res h' where i: "Html2MarkdownConverter_init h opts = (res, h')"
    by (cases "Html2MarkdownConverter_init h opts")
  from converter_init_effect [OF assms(1,2) p i] obtain c where
    c: "res = Inr c"
    and m: "map_of (dict_at h' (options (service c)))
        = map_of github_options ++ (map_of (arg_dict h opts))(str ''dialect'' := None)"
    by blast
  have "map_of (dict_at h' (options (service c))) k = Some (dict_get (arg_dict h opts) k v)"
    if kv: "(k, v) \<in> set github_listed" for k v
    using github_listed_preset [OF kv] github_listed_not_dialect [OF kv]
    by (simp add: m map_add_def dict_get_def split: option.split)
  then show ?thesis
    by (simp add: i c case_prod_beta)
qed

text \<open>
  Claim C10 with the bullet marker overridden and nothing else supplied.
\<close>

theorem default_dialect_is_github_witness:
  "map_of (arg_dict (heap_with [(str ''bulletListMarker'', PStr (str ''*''))]) (Some 0))
     (str ''dialect'') = None \<and>
   (case Html2MarkdownConverter_init
      (heap_with [(str ''bulletListMarker'', PStr (str ''*''))]) (Some 0) of
      (Inr c, h') \<Rightarrow>
         map_of (dict_at h' (options (service c))) (str ''bulletListMarker'')
           = Some (PStr (str ''*'')) \<and>
         map_of (dict_at h' (options (service c))) (str ''headingStyle'')
           = Some (PStr (str ''atx'')) \<and>
         map_of (dict_at h' (options (service c))) (str ''taskLists'') = Some (PBool True)
    | (Inl e, h') \<Rightarrow> False)"
proof -
  let ?u = "[(str ''bulletListMarker'', PStr (str ''*''))]"
  have 1: "map_of (arg_dict (heap_with ?u) (Some 0)) (str ''dialect'') = None"
    by (simp add: arg_dict_heap_with str_inject)
  have 2: "distinct (map fst (arg_dict (heap_with ?u) (Some 0)))"
    by (simp add: arg_dict_heap_with)
  have 3: "(str ''bulletListMarker'', PStr (str ''-'')) \<in> set github_listed"
    "(str ''headingStyle'', PStr (str ''atx'')) \<in> set github_listed"
    "(str ''taskLists'', PBool True) \<in> set github_listed"
    by (simp_all add: github_listed_def)
  show ?thesis
    using default_dialect_is_github [OF allocated_heap_with 2 1] 1 3
    by (auto simp: arg_dict_heap_with dict_get_def str_inject split: prod.splits sum.splits)
qed

section \<open>Conversion with overrides\<close>

text \<open>
  Claim C7: a call of \<open>convert_html\<close> with option overrides builds a new service and runs
  the conversion on it. The dictionary and the registry of that service are new objects, its
  registry holds the default rules, and up to the moment the conversion starts the options
  and the registry of the converter's own service are what they were. If the conversion
  writes to no object that existed before other than those of the service it runs on, they
  still are when the call returns.
\<close>

theorem convert_html_overrides_fresh_service:
  assumes "extra_options kwargs \<noteq> []"
    and "options (service self) < next_addr h"
    and "rules (service self) < next_addr h"
  shows "(\<exists>temp h3 html1.
            convert_html td fmt h self html kwargs = td h3 temp html1 \<and>
            next_addr h \<le> options temp \<and> next_addr h \<le> rules temp \<and>
            registry_at h3 (rules temp) = default_rules \<and>
            dicts h3 (options (service self)) = dicts h (options (service self)) \<and>
            registries h3 (rules (service self)) = registries h (rules (service self))) \<and>
         (turndown_local td \<longrightarrow>
            dicts (snd (convert_html td fmt h self html kwargs)) (options (service self))
              = dicts h (options (service self)) \<and>
            registries (snd (convert_html td fmt h self html kwargs)) (rules (service self))
              = registries h (rules (service self)))"
proof -
  from convert_html_overrides [OF assms(1), of td fmt h self html]
  obtain temp h3 html1 where
    c: "convert_html td fmt h self html kwargs = td h3 temp html1"
    and fresh: "next_addr h \<le> options temp" "next_addr h \<le> rules temp"
      "next_addr h \<le> next_addr h3"
    and reg: "registry_at h3 (rules temp) = default_rules"
    and frame: "\<forall>b < next_addr h. dicts h3 b = dicts h b \<and> registries h3 b = registries h b"
    by blast
  have d3: "dicts h3 (options (service self)) = dicts h (options (service self))"
    and r3: "registries h3 (rules (service self)) = registries h (rules (service self))"
    using frame assms(2,3) by auto
  have "dicts (snd (td h3 temp html1)) (options (service self)) = dicts h3 (options (service self))"
    if "turndown_local td"
    using that assms(2) fresh unfolding turndown_local_def by auto
  moreover have "registries (snd (td h3 temp html1)) (rules (service self))
      = registries h3 (rules (service self))"
    if "turndown_local td"
    using that assms(3) fresh unfolding turndown_local_def by auto
  ultimately have "turndown_local td \<longrightarrow>
      dicts (snd (convert_html td fmt h self html kwargs)) (options (service self))
        = dicts h (options (service self)) \<and>
      registries (snd (convert_html td fmt h self html kwargs)) (rules (service self))
        = registries h (rules (service self))"
    using c d3 r3 by simp
  moreover have "\<exists>temp h3 html1.
      convert_html td fmt h self html kwargs = td h3 temp html1 \<and>
      next_addr h \<le> options temp \<and> next_addr h \<le> rules temp \<and>
      registry_at h3 (rules temp) = default_rules \<and>
      dicts h3 (options (service self)) = dicts h (options (service self)) \<and>
      registries h3 (rules (service self)) = registries h (rules (service self))"
    using c fresh reg d3 r3 by blast
  ultimately show ?thesis by blast
qed

text \<open>
  Claim C7 for a conversion that empties the options of the service it runs on: after a call
  with \<open>headingStyle\<close> overridden, the default service has its github options and its rules.
\<close>

theorem convert_html_overrides_fresh_service_witness:
  "extra_options heading_override \<noteq> [] \<and>
   options (service default_converter) < next_addr default_heap \<and>
   rules (service default_converter) < next_addr default_heap \<and>
   turndown_local clearing_turndown \<and>
   dicts (snd (convert_html clearing_turndown (\<lambda>v. []) default_heap default_converter
                 (str ''<p>x</p>'') heading_override)) 0 = Some github_options \<and>
   registries (snd (convert_html clearing_turndown (\<lambda>v. []) default_heap default_converter
                 (str ''<p>x</p>'') heading_override)) 1 = Some default_rules"
proof -
  have 1: "extra_options heading_override \<noteq> []"
    by (simp add: extra_options_def heading_override_def dict_pop_def str_inject)
  have 2: "options (service default_converter) < next_addr default_heap"
    and 3: "rules (service default_converter) < next_addr default_heap"
    by (simp_all add: default_converter_def default_heap_def)
  have 4: "turndown_local clearing_turndown"
    by (simp add: turndown_local_def clearing_turndown_def set_dict_def)
  have 5: "dicts default_heap (options (service default_converter)) = Some github_options"
    and 6: "registries default_heap (rules (service default_converter)) = Some default_rules"
    by (simp_all add: default_converter_def default_heap_def)
  have 7: "options (service default_converter) = 0" "rules (service default_converter) = 1"
    by (simp_all add: default_converter_def)
  from convert_html_overrides_fresh_service [OF 1 2 3, of clearing_turndown "\<lambda>v. []"
      "str ''<p>x</p>''"] 4 5 6
  have "dicts (snd (convert_html clearing_turndown (\<lambda>v. []) default_heap default_converter
                 (str ''<p>x</p>'') heading_override)) (options (service default_converter))
          = Some github_options \<and>
        registries (snd (convert_html clearing_turndown (\<lambda>v. []) default_heap default_converter
                 (str ''<p>x</p>'') heading_override)) (rules (service default_converter))
          = Some default_rules"
    by simp
  then show ?thesis using 1 2 3 4 by (simp only: 7) simp
qed

section \<open>The postprocessing step\<close>

text \<open>
  Claim C5: the postprocessing step collapses every run of consecutive blank lines to its
  first line. Its result, read as lines, is the input with exactly those blank lines taken
  out that follow a blank line; it has no two adjacent blank lines, and so nowhere three
  newlines in a row.
\<close>

theorem postprocess_collapses_blank_runs:
  "split_nl (postprocess s) = collapse_blank_runs (split_nl s) \<and>
   \<not> adjacent_blank (split_nl (postprocess s)) \<and>
   (\<nexists>ps ss. postprocess s = ps @ [NL, NL, NL] @ ss)"
proof (intro conjI)
  show "split_nl (postprocess s) = collapse_blank_runs (split_nl s)"
    by (simp add: postprocess_lines kept_lines_collapse)
  show na: "\<not> adjacent_blank (split_nl (postprocess s))"
    by (simp add: postprocess_lines kept_lines_no_adjacent)
  show "\<nexists>ps ss. postprocess s = ps @ [NL, NL, NL] @ ss"
  proof
    assume "\<exists>ps ss. postprocess s = ps @ [NL, NL, NL] @ ss"
    then obtain ps ss where "postprocess s = ps @ NL # NL # NL # ss" by auto
    then have "adjacent_blank (split_nl (postprocess s))"
      by (simp only: triple_newline_lines)
    with na show False by contradiction
  qed
qed

text \<open>
  Claim C5 on \<open>"a\n\n \nb"\<close>: the two blank lines become one.
\<close>

theorem postprocess_collapses_blank_runs_witness:
  "split_nl (postprocess [97, NL, NL, 32, NL, 98]) = [[97], [], [98]] \<and>
   collapse_blank_runs (split_nl [97, NL, NL, 32, NL, 98]) = [[97], [], [98]]"
  using postprocess_collapses_blank_runs [of "[97, NL, NL, 32, NL, 98]"]
  by (simp add: collapse_blank_runs_def blank_def strip_def is_space_def NL_def)






end
